theory Spec2Isabelle
  imports Main "HOL-Library.Multiset"
begin

section \<open>The waitlist heap (src/src/heap/BinomialHeap.cpp)\<close>

text \<open>
  \<^verbatim>\<open>PriorityType\<close> and \<^verbatim>\<open>PassengerIdType\<close> are C++ \<^verbatim>\<open>int\<close>. The heap and the flight
  only copy and compare them (\<^verbatim>\<open><\<close>, \<^verbatim>\<open>==\<close>), never compute with them, so they are
  modelled as HOL integers: every 32-bit value is one, and comparison agrees.

  A \<^verbatim>\<open>BinomialHeapNode\<close> has the fields priority, passengerId, degree, parent, child and
  sibling. The code allocates every node once (in \<^verbatim>\<open>insert\<close>), never copies a node, and
  keeps each node reachable from exactly one place: the root list or the child/sibling
  chain of one parent. The node graph is therefore a forest, and a node is modelled by
  its fields together with the list of nodes of its \<^verbatim>\<open>child\<close>/\<^verbatim>\<open>sibling\<close> chain, first
  child first. The \<^verbatim>\<open>parent\<close> pointer is written by \<^verbatim>\<open>link\<close>, \<^verbatim>\<open>consolidate\<close> and
  \<^verbatim>\<open>extractMin\<close> and read nowhere; it is left out. The \<^verbatim>\<open>degree\<close> field is kept as the
  stored counter it is (0 at construction, incremented by \<^verbatim>\<open>link\<close>), not derived from the
  number of children.
\<close>

datatype BinomialHeapNode =
  Node (priority: int) (passengerId: int) (degree: nat) (child: "BinomialHeapNode list")

text \<open>The class \<^verbatim>\<open>BinomialHeap\<close> has the single member \<^verbatim>\<open>roots\<close>, a list of nodes.\<close>

type_synonym BinomialHeap = "BinomialHeapNode list"

text \<open>Both throwing paths raise \<^verbatim>\<open>std::runtime_error\<close> with a message.\<close>

datatype error = runtime_error string

text \<open>The constructor \<^verbatim>\<open>BinomialHeapNode(p, data)\<close>.\<close>

definition new_node :: "int \<Rightarrow> int \<Rightarrow> BinomialHeapNode" where
  "new_node p data = Node p data 0 []"

text \<open>
  \<^verbatim>\<open>link(y, z)\<close>: y becomes the first child of z (its sibling is the old first child),
  and the degree of z is incremented.
\<close>

definition link :: "BinomialHeapNode \<Rightarrow> BinomialHeapNode \<Rightarrow> BinomialHeapNode" where
  "link y z = Node (priority z) (passengerId z) (degree z + 1) (y # child z)"

text \<open>
  \<^verbatim>\<open>mergeRootLists\<close>: the linear merge of this heap's root list (first argument) with the
  other heap's; on equal degrees the root of this heap goes first.
\<close>

fun mergeRootLists :: "BinomialHeap \<Rightarrow> BinomialHeap \<Rightarrow> BinomialHeap" where
  "mergeRootLists [] other_roots = other_roots"
| "mergeRootLists roots [] = roots"
| "mergeRootLists (r1 # roots) (r2 # other_roots) =
     (if degree r1 \<le> degree r2
      then r1 # mergeRootLists roots (r2 # other_roots)
      else r2 # mergeRootLists (r1 # roots) other_roots)"

text \<open>
  \<^verbatim>\<open>getSize\<close>: the vector \<^verbatim>\<open>q\<close> is a work queue read at index \<^verbatim>\<open>head\<close>; the model keeps
  the part of \<^verbatim>\<open>q\<close> from \<^verbatim>\<open>head\<close> on. Each step counts the node at the head and appends
  its child chain. The count is a C++ \<^verbatim>\<open>int\<close>; it is modelled as a natural number,
  without the 32-bit bound: heaps of \<open>2^31\<close> nodes and more, where the counter would
  overflow, are outside the model.
\<close>

function getSize_loop :: "BinomialHeapNode list \<Rightarrow> nat \<Rightarrow> nat" where
  "getSize_loop [] cnt = cnt"
| "getSize_loop (current # q) cnt = getSize_loop (q @ child current) (cnt + 1)"
  by pat_completeness auto
termination
proof (relation "measure (\<lambda>(q, cnt). size_list size q)")
  fix current :: BinomialHeapNode and q :: "BinomialHeapNode list" and cnt :: nat
  show "((q @ child current, cnt + 1), current # q, cnt) \<in> measure (\<lambda>(q, cnt). size_list size q)"
    by (cases current) simp
qed simp

definition getSize :: "BinomialHeap \<Rightarrow> nat" where
  "getSize roots = getSize_loop roots 0"

text \<open>
  \<^verbatim>\<open>static_cast<int>(log2(n))\<close> for \<open>n \<ge> 1\<close>: the integer part of the binary logarithm.
  It only sets the initial size of the degree table, which \<^verbatim>\<open>consolidate\<close> resizes when
  a slot is missing; every lemma below about the table holds for any initial size.
\<close>

fun ilog2 :: "nat \<Rightarrow> nat" where
  "ilog2 n = (if n < 2 then 0 else Suc (ilog2 (n div 2)))"

definition max_degree_possible :: "BinomialHeap \<Rightarrow> nat" where
  "max_degree_possible roots =
     (let m0 = (if roots \<noteq> [] then ilog2 (if getSize roots > 0 then getSize roots else 1) + 2
                else 0)
      in if m0 < 5 then 5 else m0)"

text \<open>
  The inner \<^verbatim>\<open>while\<close> of \<^verbatim>\<open>consolidate\<close>: as long as slot \<open>d\<close> of the degree table exists
  and is occupied, the tree in the slot and \<open>current\<close> are linked (the one with the
  strictly smaller priority on top, \<open>current\<close> on a tie), the slot is cleared and \<open>d\<close>
  is incremented. It returns the final \<open>current\<close>, \<open>d\<close> and table.
\<close>

function consolidate_link ::
  "BinomialHeapNode \<Rightarrow> nat \<Rightarrow> BinomialHeapNode option list \<Rightarrow>
   BinomialHeapNode \<times> nat \<times> BinomialHeapNode option list" where
  "consolidate_link current d degree_table =
     (if d < length degree_table then
        (case degree_table ! d of
           None \<Rightarrow> (current, d, degree_table)
         | Some other \<Rightarrow>
             (if priority other < priority current
              then consolidate_link (link current other) (d + 1) (degree_table[d := None])
              else consolidate_link (link other current) (d + 1) (degree_table[d := None])))
      else (current, d, degree_table))"
  by pat_completeness auto
termination
  by (relation "measure (\<lambda>(current, d, degree_table). length degree_table - d)") auto

text \<open>
  After the inner loop: the table is resized to \<open>d + 1\<close> slots (new slots null) when \<open>d\<close>
  is out of range, and \<open>current\<close> is stored in slot \<open>d\<close>.
\<close>

definition consolidate_place ::
  "BinomialHeapNode \<Rightarrow> nat \<Rightarrow> BinomialHeapNode option list \<Rightarrow> BinomialHeapNode option list" where
  "consolidate_place current d degree_table =
     (let resized = (if d \<ge> length degree_table
                     then degree_table @ replicate (d + 1 - length degree_table) None
                     else degree_table)
      in resized[d := Some current])"

text \<open>
  The outer \<^verbatim>\<open>while\<close> of \<^verbatim>\<open>consolidate\<close> over the root list. A root is read when the
  iterator reaches it and no earlier step touches it (only \<open>current\<close> and the trees
  already in the table are linked), so iterating over the roots as they were is what the
  code does.
\<close>

fun consolidate_loop ::
  "BinomialHeapNode list \<Rightarrow> BinomialHeapNode option list \<Rightarrow> BinomialHeapNode option list" where
  "consolidate_loop [] degree_table = degree_table"
| "consolidate_loop (current # rest) degree_table =
     (case consolidate_link current (degree current) degree_table of
        (current', d, degree_table') \<Rightarrow>
          consolidate_loop rest (consolidate_place current' d degree_table'))"

text \<open>The rebuild loop: the non-null slots of the table, in index order.\<close>

fun table_roots :: "BinomialHeapNode option list \<Rightarrow> BinomialHeapNode list" where
  "table_roots [] = []"
| "table_roots (None # degree_table) = table_roots degree_table"
| "table_roots (Some node # degree_table) = node # table_roots degree_table"

text \<open>
  \<^verbatim>\<open>consolidate\<close>. \<^verbatim>\<open>std::list::sort\<close> is a stable sort, here by degree;
  \<^const>\<open>sort_key\<close> is the stable insertion sort.
\<close>

definition consolidate :: "BinomialHeap \<Rightarrow> BinomialHeap" where
  "consolidate roots =
     (if length roots \<le> 1 then roots
      else sort_key degree
             (table_roots
                (consolidate_loop roots (replicate (max_degree_possible roots) None))))"

text \<open>
  \<^verbatim>\<open>findMinNodeIterator\<close>: \<^const>\<open>None\<close> is \<^verbatim>\<open>roots.cend()\<close>, \<open>Some i\<close> the iterator at
  position \<open>i\<close>. The scan keeps the position of the first root of minimal priority.
\<close>

fun findMin_scan :: "BinomialHeapNode list \<Rightarrow> nat \<Rightarrow> BinomialHeapNode \<Rightarrow> nat \<Rightarrow> nat" where
  "findMin_scan [] it min_node min_it = min_it"
| "findMin_scan (r # rest) it min_node min_it =
     (if priority r < priority min_node
      then findMin_scan rest (it + 1) r it
      else findMin_scan rest (it + 1) min_node min_it)"

definition findMinNodeIterator :: "BinomialHeap \<Rightarrow> nat option" where
  "findMinNodeIterator roots =
     (case roots of [] \<Rightarrow> None | r # rest \<Rightarrow> Some (findMin_scan rest 1 r 0))"

definition isEmpty :: "BinomialHeap \<Rightarrow> bool" where
  "isEmpty roots = (roots = [])"

text \<open>
  \<^verbatim>\<open>insert\<close>: the new node alone in a temporary heap, merged into this one, then
  consolidation.
\<close>

definition insert :: "int \<Rightarrow> int \<Rightarrow> BinomialHeap \<Rightarrow> BinomialHeap" where
  "insert p passenger roots = consolidate (mergeRootLists roots [new_node p passenger])"

text \<open>
  The two readers return the exception or the value, together with the heap as the call
  leaves it: their bodies call \<^verbatim>\<open>findMinNodeIterator\<close> and read one field, and write
  nothing.
\<close>

definition findMinPassengerId :: "BinomialHeap \<Rightarrow> (error + int) \<times> BinomialHeap" where
  "findMinPassengerId roots =
     (case findMinNodeIterator roots of
        None \<Rightarrow> (Inl (runtime_error ''Heap is empty''), roots)
      | Some min_it \<Rightarrow> (Inr (passengerId (roots ! min_it)), roots))"

definition findMinPriority :: "BinomialHeap \<Rightarrow> (error + int) \<times> BinomialHeap" where
  "findMinPriority roots =
     (case findMinNodeIterator roots of
        None \<Rightarrow> (Inl (runtime_error ''Heap is empty''), roots)
      | Some min_it \<Rightarrow> (Inr (priority (roots ! min_it)), roots))"

text \<open>
  \<^verbatim>\<open>extractMin\<close> returns the exception or the passenger id, together with the heap as the
  call leaves it. The throw comes before any write. Otherwise the minimum root is erased
  from the root list, its child chain is pushed to the front of a temporary heap one by
  one (which reverses it), the temporary heap is merged in and the roots consolidated.
\<close>

definition extractMin :: "BinomialHeap \<Rightarrow> (error + int) \<times> BinomialHeap" where
  "extractMin roots =
     (case findMinNodeIterator roots of
        None \<Rightarrow> (Inl (runtime_error ''Cannot extract from empty heap''), roots)
      | Some min_it \<Rightarrow>
          (let min_node = roots ! min_it;
               erased = take min_it roots @ drop (min_it + 1) roots;
               children_heap = rev (child min_node)
           in (Inr (passengerId min_node), consolidate (mergeRootLists erased children_heap))))"

text \<open>
  \<^verbatim>\<open>getWaitlistOrdered_destructive\<close>: while the heap is not empty, read the minimum
  priority, extract the minimum and append the pair. An exception of either call would
  leave the loop and the function. The loop ends because every extraction removes one
  node (shown below, before the termination proof).
\<close>

function getWaitlistOrdered_loop ::
  "BinomialHeap \<Rightarrow> (int \<times> int) list \<Rightarrow> (error + (int \<times> int) list) \<times> BinomialHeap" where
  "getWaitlistOrdered_loop roots waitlist =
     (if \<not> isEmpty roots then
        (case findMinPriority roots of
           (Inl e, roots1) \<Rightarrow> (Inl e, roots1)
         | (Inr prio, roots1) \<Rightarrow>
             (case extractMin roots1 of
                (Inl e, roots2) \<Rightarrow> (Inl e, roots2)
              | (Inr passId, roots2) \<Rightarrow>
                  getWaitlistOrdered_loop roots2 (waitlist @ [(prio, passId)])))
      else (Inr waitlist, roots))"
  by pat_completeness auto

definition getWaitlistOrdered_destructive ::
  "BinomialHeap \<Rightarrow> (error + (int \<times> int) list) \<times> BinomialHeap" where
  "getWaitlistOrdered_destructive roots = getWaitlistOrdered_loop roots []"

section \<open>The seat ledger of one flight (src/src/booking/Flight.cpp)\<close>

text \<open>
  The class \<^verbatim>\<open>Flight\<close>. The capacity is a C++ \<^verbatim>\<open>int\<close>; the constructor stores
  \<^verbatim>\<open>cap >= 0 ? cap : 0\<close>. Console output is not modelled.
\<close>

record Flight =
  flightId :: string
  origin :: string
  destination :: string
  capacity :: int
  confirmedPassengers :: "int list"
  waitlistHeap :: BinomialHeap

definition Flight_ctor :: "string \<Rightarrow> string \<Rightarrow> string \<Rightarrow> int \<Rightarrow> Flight" where
  "Flight_ctor fid orig dest cap =
     \<lparr>flightId = fid, origin = orig, destination = dest,
      capacity = (if cap \<ge> 0 then cap else 0),
      confirmedPassengers = [], waitlistHeap = []\<rparr>"

text \<open>\<^verbatim>\<open>static_cast<size_t>(capacity)\<close> on a 64-bit target: the value modulo \<open>2^64\<close>.\<close>

definition size_t_of_int :: "int \<Rightarrow> nat" where
  "size_t_of_int c = nat (c mod 2 ^ 64)"

text \<open>
  \<^verbatim>\<open>addPassenger\<close> returns the result and the flight as the call leaves it:
  true and nothing changed when the id is already confirmed, true after appending the id
  when a seat is free, false after inserting into the waitlist otherwise.
\<close>

definition addPassenger :: "int \<Rightarrow> int \<Rightarrow> Flight \<Rightarrow> bool \<times> Flight" where
  "addPassenger passenger prio f =
     (if passenger \<in> set (confirmedPassengers f) then (True, f)
      else if length (confirmedPassengers f) < size_t_of_int (capacity f)
      then (True, f\<lparr>confirmedPassengers := confirmedPassengers f @ [passenger]\<rparr>)
      else (False, f\<lparr>waitlistHeap := insert prio passenger (waitlistHeap f)\<rparr>))"

text \<open>
  \<^verbatim>\<open>cancelBooking\<close>: \<^verbatim>\<open>std::find\<close> gives the first occurrence and \<^verbatim>\<open>erase\<close> removes
  it (\<^const>\<open>remove1\<close>). Then, when the waitlist is not empty, the minimum is extracted
  and appended; an exception of \<^verbatim>\<open>extractMin\<close> is caught and the result is still true.
\<close>

definition cancelBooking :: "int \<Rightarrow> Flight \<Rightarrow> bool \<times> Flight" where
  "cancelBooking passenger f =
     (if passenger \<in> set (confirmedPassengers f) then
        (let f1 = f\<lparr>confirmedPassengers := remove1 passenger (confirmedPassengers f)\<rparr>
         in if \<not> isEmpty (waitlistHeap f1) then
              (case extractMin (waitlistHeap f1) of
                 (Inr promotedPassengerId, roots') \<Rightarrow>
                   (True, f1\<lparr>waitlistHeap := roots',
                              confirmedPassengers := confirmedPassengers f1 @ [promotedPassengerId]\<rparr>)
               | (Inl e, roots') \<Rightarrow> (True, f1\<lparr>waitlistHeap := roots'\<rparr>))
            else (True, f1))
      else (False, f))"

section \<open>Sequences of calls\<close>

text \<open>
  A caller of the heap issues inserts and extractions. \<open>run_ops\<close> applies a sequence to
  a heap; an extraction on the empty heap throws and leaves the heap as it was, and the
  caller goes on. \<open>run_checked\<close> stops at the first exception instead.
\<close>

datatype heap_op = Insert int int | ExtractMin

fun apply_op :: "heap_op \<Rightarrow> BinomialHeap \<Rightarrow> BinomialHeap" where
  "apply_op (Insert p passenger) roots = insert p passenger roots"
| "apply_op ExtractMin roots = snd (extractMin roots)"

definition run_ops :: "heap_op list \<Rightarrow> BinomialHeap \<Rightarrow> BinomialHeap" where
  "run_ops ops roots = fold apply_op ops roots"

fun run_checked :: "heap_op list \<Rightarrow> BinomialHeap \<Rightarrow> error + BinomialHeap" where
  "run_checked [] roots = Inr roots"
| "run_checked (Insert p passenger # ops) roots = run_checked ops (insert p passenger roots)"
| "run_checked (ExtractMin # ops) roots =
     (case extractMin roots of
        (Inl e, roots') \<Rightarrow> Inl e
      | (Inr passenger, roots') \<Rightarrow> run_checked ops roots')"

text \<open>The heap built by inserting the pairs of a list, in order, into the empty heap.\<close>

definition insert_all :: "(int \<times> int) list \<Rightarrow> BinomialHeap" where
  "insert_all xs = fold (\<lambda>(p, passenger). insert p passenger) xs []"

datatype flight_op = AddPassenger int int | CancelBooking int

fun flight_step :: "flight_op \<Rightarrow> Flight \<Rightarrow> Flight" where
  "flight_step (AddPassenger passenger prio) f = snd (addPassenger passenger prio f)"
| "flight_step (CancelBooking passenger) f = snd (cancelBooking passenger f)"

definition flight_run :: "flight_op list \<Rightarrow> Flight \<Rightarrow> Flight" where
  "flight_run ops f = fold flight_step ops f"

section \<open>The properties\<close>

text \<open>
  The entries stored below a node and in a heap, as (priority, passengerId) pairs:
  the node itself first, then its children's entries.
\<close>

fun node_entries :: "BinomialHeapNode \<Rightarrow> (int \<times> int) list" where
  "node_entries (Node p i d cs) = (p, i) # concat (map node_entries cs)"

definition heap_entries :: "BinomialHeap \<Rightarrow> (int \<times> int) list" where
  "heap_entries roots = concat (map node_entries roots)"

abbreviation heap_mset :: "BinomialHeap \<Rightarrow> (int \<times> int) multiset" where
  "heap_mset roots \<equiv> mset (heap_entries roots)"

text \<open>
  Min-heap order of a tree: the priority of a node is at most the priority of every
  entry below each of its children (all its descendants), and the same holds in every
  child.
\<close>

fun heap_order :: "BinomialHeapNode \<Rightarrow> bool" where
  "heap_order (Node p i d cs) =
     (\<forall>c\<in>set cs. heap_order c \<and> (\<forall>e\<in>set (node_entries c). p \<le> fst e))"

definition heap_ordered :: "BinomialHeap \<Rightarrow> bool" where
  "heap_ordered roots = (\<forall>r\<in>set roots. heap_order r)"

text \<open>
  Binomial shape of a tree: a node whose degree field is \<open>d\<close> has exactly \<open>d\<close> children,
  the degrees of the children are \<open>0, \<dots>, d - 1\<close>, each once, and every child has the
  shape in turn. A heap has the shape when every root has it and the degrees of the roots
  increase strictly along the root list.
\<close>

fun binomial_tree :: "BinomialHeapNode \<Rightarrow> bool" where
  "binomial_tree (Node p i d cs) =
     (length cs = d \<and> mset (map degree cs) = mset [0..<d] \<and> (\<forall>c\<in>set cs. binomial_tree c))"

definition binomial_heap :: "BinomialHeap \<Rightarrow> bool" where
  "binomial_heap roots =
     ((\<forall>r\<in>set roots. binomial_tree r) \<and> sorted_wrt (<) (map degree roots))"

text \<open>
  For the proofs about \<^const>\<open>consolidate\<close>: every occupied slot \<open>d\<close> of the degree table
  holds a tree with the property \<open>P d\<close>, and \<open>P\<close> is kept by the links the loop makes.
\<close>

definition table_inv ::
  "(nat \<Rightarrow> BinomialHeapNode \<Rightarrow> bool) \<Rightarrow> BinomialHeapNode option list \<Rightarrow> bool" where
  "table_inv P t = (\<forall>d<length t. \<forall>n. t ! d = Some n \<longrightarrow> P d n)"

definition link_closed :: "(nat \<Rightarrow> BinomialHeapNode \<Rightarrow> bool) \<Rightarrow> bool" where
  "link_closed P =
     (\<forall>d y z. P d y \<longrightarrow> P d z \<longrightarrow> priority z \<le> priority y \<longrightarrow> P (d + 1) (link y z))"

text \<open>The passenger ids booked on a flight: the confirmed ones, then the waitlisted ones.\<close>

definition waitlisted :: "Flight \<Rightarrow> int list" where
  "waitlisted f = map snd (heap_entries (waitlistHeap f))"

definition booked :: "Flight \<Rightarrow> int list" where
  "booked f = confirmedPassengers f @ waitlisted f"

text \<open>The capacity is not negative and the confirmed list fits into it.\<close>

definition within_capacity :: "Flight \<Rightarrow> bool" where
  "within_capacity f \<longleftrightarrow> 0 \<le> capacity f \<and> int (length (confirmedPassengers f)) \<le> capacity f"

text \<open>
  Every \<^verbatim>\<open>addPassenger\<close> call of the sequence is made with an id that is not on the
  waitlist at the time of the call.
\<close>

fun no_waitlisted_rebooking :: "flight_op list \<Rightarrow> Flight \<Rightarrow> bool" where
  "no_waitlisted_rebooking [] f = True"
| "no_waitlisted_rebooking (AddPassenger passenger prio # ops) f =
     (passenger \<notin> set (waitlisted f) \<and>
      no_waitlisted_rebooking ops (flight_step (AddPassenger passenger prio) f))"
| "no_waitlisted_rebooking (CancelBooking passenger # ops) f =
     no_waitlisted_rebooking ops (flight_step (CancelBooking passenger) f)"


section \<open>Contents of the heap\<close>

text \<open>
  The multiset of entries is what the operations keep or change by one: merging and
  consolidating keep it, \<^const>\<open>insert\<close> adds the new pair, \<^const>\<open>extractMin\<close> removes
  the pair of the root it returns. \<^const>\<open>getSize\<close> counts the entries. None of this
  needs an invariant: it holds for every forest.
\<close>

declare consolidate_link.simps [simp del]

lemma heap_entries_Nil [simp]: "heap_entries [] = []"
  by (simp add: heap_entries_def)

lemma heap_entries_Cons [simp]: "heap_entries (r # roots) = node_entries r @ heap_entries roots"
  by (simp add: heap_entries_def)

lemma heap_entries_append [simp]: "heap_entries (xs @ ys) = heap_entries xs @ heap_entries ys"
  by (simp add: heap_entries_def)

lemma node_entries_sel: "node_entries r = (priority r, passengerId r) # heap_entries (child r)"
  by (cases r) (simp add: heap_entries_def)

lemma getSize_loop_eq: "getSize_loop q cnt = cnt + length (heap_entries q)"
  by (induction q cnt rule: getSize_loop.induct) (simp_all add: node_entries_sel)

lemma getSize_eq: "getSize roots = length (heap_entries roots)"
  by (simp add: getSize_def getSize_loop_eq)

lemma heap_mset_merge:
  "heap_mset (mergeRootLists xs ys) = heap_mset xs + heap_mset ys"
  by (induction xs ys rule: mergeRootLists.induct) simp_all

lemma heap_mset_rev [simp]: "heap_mset (rev xs) = heap_mset xs"
  by (induction xs) simp_all

lemma heap_mset_cong: "mset xs = mset ys \<Longrightarrow> heap_mset xs = heap_mset ys"
proof -
  have "heap_mset zs = (\<Sum>r\<in>#mset zs. mset (node_entries r))" for zs
    by (induction zs) simp_all
  then show "mset xs = mset ys \<Longrightarrow> heap_mset xs = heap_mset ys" by simp
qed

lemma table_roots_append [simp]:
  "table_roots (s @ t) = table_roots s @ table_roots t"
  by (induction s rule: table_roots.induct) simp_all

lemma table_roots_replicate [simp]: "table_roots (replicate n None) = []"
  by (induction n) simp_all

lemma table_roots_clear:
  "d < length t \<Longrightarrow> t ! d = Some other \<Longrightarrow>
   heap_mset (table_roots t) = mset (node_entries other) + heap_mset (table_roots (t[d := None]))"
  by (induction t arbitrary: d rule: table_roots.induct)
     (auto simp: nth_Cons split: nat.splits)

lemma table_roots_store:
  "d < length t \<Longrightarrow> t ! d = None \<Longrightarrow>
   heap_mset (table_roots (t[d := Some c])) = mset (node_entries c) + heap_mset (table_roots t)"
  by (induction t arbitrary: d rule: table_roots.induct)
     (auto simp: nth_Cons split: nat.splits)

lemma node_entries_link:
  "mset (node_entries (link y z)) = mset (node_entries y) + mset (node_entries z)"
  by (cases z) (simp add: link_def)




lemma consolidate_link_free_aux:
  "(case consolidate_link c d t of (c', d', t') \<Rightarrow> d' < length t' \<longrightarrow> t' ! d' = None)"
proof (induction c d t rule: consolidate_link.induct)
  case (1 current d degree_table)
  show ?case
    by (subst consolidate_link.simps) (use 1 in \<open>auto split: option.splits\<close>)
qed

lemma consolidate_link_free:
  "consolidate_link c d t = (c', d', t') \<Longrightarrow> d' < length t' \<Longrightarrow> t' ! d' = None"
  using consolidate_link_free_aux [of c d t] by simp

lemma consolidate_link_mset_aux:
  "(case consolidate_link c d t of (c', d', t') \<Rightarrow>
      mset (node_entries c') + heap_mset (table_roots t')) =
   mset (node_entries c) + heap_mset (table_roots t)"
proof (induction c d t rule: consolidate_link.induct)
  case (1 current d degree_table)
  show ?case
    by (subst consolidate_link.simps)
       (use 1 in \<open>auto split: option.splits simp: table_roots_clear node_entries_link\<close>)
qed

lemma consolidate_link_mset:
  "consolidate_link c d t = (c', d', t') \<Longrightarrow>
   mset (node_entries c') + heap_mset (table_roots t') =
   mset (node_entries c) + heap_mset (table_roots t)"
  using consolidate_link_mset_aux [of c d t] by simp

lemma consolidate_place_mset:
  assumes "d < length t \<longrightarrow> t ! d = None"
  shows "heap_mset (table_roots (consolidate_place c d t)) =
         mset (node_entries c) + heap_mset (table_roots t)"
proof (cases "d < length t")
  case True
  then show ?thesis using assms by (simp add: consolidate_place_def table_roots_store)
next
  case False
  let ?r = "t @ replicate (d + 1 - length t) None"
  have "d < length ?r" "?r ! d = None" using False by (auto simp: nth_append)
  then have "heap_mset (table_roots (?r[d := Some c])) =
             mset (node_entries c) + heap_mset (table_roots ?r)"
    by (rule table_roots_store)
  then show ?thesis using False by (simp add: consolidate_place_def)
qed

lemma consolidate_loop_mset:
  "heap_mset (table_roots (consolidate_loop rs t)) = heap_mset rs + heap_mset (table_roots t)"
proof (induction rs arbitrary: t)
  case Nil
  show ?case by simp
next
  case (Cons r rs)
  obtain c' d' t' where cl: "consolidate_link r (degree r) t = (c', d', t')"
    by (cases "consolidate_link r (degree r) t") auto
  have "heap_mset (table_roots (consolidate_place c' d' t')) =
        mset (node_entries c') + heap_mset (table_roots t')"
    using consolidate_link_free [OF cl] by (intro consolidate_place_mset) simp
  also have "\<dots> = mset (node_entries r) + heap_mset (table_roots t)"
    by (rule consolidate_link_mset [OF cl])
  finally show ?case using Cons.IH [of "consolidate_place c' d' t'"] cl by simp
qed

lemma consolidate_mset [simp]: "heap_mset (consolidate roots) = heap_mset roots"
proof (cases "length roots \<le> 1")
  case True
  then show ?thesis by (simp add: consolidate_def)
next
  case False
  let ?t = "consolidate_loop roots (replicate (max_degree_possible roots) None)"
  have "heap_mset (sort_key degree (table_roots ?t)) = heap_mset (table_roots ?t)"
    by (rule heap_mset_cong) simp
  then show ?thesis using False by (simp add: consolidate_def consolidate_loop_mset)
qed

lemma insert_mset [simp]: "heap_mset (insert p i roots) = {#(p, i)#} + heap_mset roots"
  by (simp add: insert_def heap_mset_merge new_node_def)




subsection \<open>The minimum root and its extraction\<close>

lemma findMin_scan_result:
  "findMin_scan rest it m mi = j \<Longrightarrow>
   (j = mi \<and> (\<forall>r\<in>set rest. priority m \<le> priority r)) \<or>
   (it \<le> j \<and> j < it + length rest \<and> priority (rest ! (j - it)) < priority m \<and>
    (\<forall>r\<in>set rest. priority (rest ! (j - it)) \<le> priority r))"
proof (induction rest arbitrary: it m mi)
  case Nil
  then show ?case by simp
next
  case (Cons r rest)
  show ?case
  proof (cases "priority r < priority m")
    case True
    then have "findMin_scan rest (it + 1) r it = j" using Cons.prems by simp
    from Cons.IH [OF this] show ?thesis
    proof
      assume "j = it \<and> (\<forall>x\<in>set rest. priority r \<le> priority x)"
      then show ?thesis using True by auto
    next
      assume a: "it + 1 \<le> j \<and> j < it + 1 + length rest \<and>
        priority (rest ! (j - (it + 1))) < priority r \<and>
        (\<forall>x\<in>set rest. priority (rest ! (j - (it + 1))) \<le> priority x)"
      then have "(r # rest) ! (j - it) = rest ! (j - (it + 1))"
        by (simp add: nth_Cons split: nat.splits) (metis Suc_diff_Suc Suc_le_lessD nat.inject)
      then show ?thesis using a True by auto
    qed
  next
    case False
    then have "findMin_scan rest (it + 1) m mi = j" using Cons.prems by simp
    from Cons.IH [OF this] show ?thesis
    proof
      assume "j = mi \<and> (\<forall>x\<in>set rest. priority m \<le> priority x)"
      then show ?thesis using False by auto
    next
      assume a: "it + 1 \<le> j \<and> j < it + 1 + length rest \<and>
        priority (rest ! (j - (it + 1))) < priority m \<and>
        (\<forall>x\<in>set rest. priority (rest ! (j - (it + 1))) \<le> priority x)"
      then have "(r # rest) ! (j - it) = rest ! (j - (it + 1))"
        by (simp add: nth_Cons split: nat.splits) (metis Suc_diff_Suc Suc_le_lessD nat.inject)
      then show ?thesis using a False by auto
    qed
  qed
qed

lemma findMinNodeIterator_None [simp]: "findMinNodeIterator roots = None \<longleftrightarrow> roots = []"
  by (simp add: findMinNodeIterator_def split: list.splits)

lemma findMinNodeIterator_Some:
  assumes "findMinNodeIterator roots = Some i"
  shows "i < length roots \<and> (\<forall>r\<in>set roots. priority (roots ! i) \<le> priority r)"
proof -
  from assms obtain r rest where roots: "roots = r # rest" and i: "findMin_scan rest 1 r 0 = i"
    by (auto simp: findMinNodeIterator_def split: list.splits)
  from findMin_scan_result [OF i] show ?thesis
  proof
    assume "i = 0 \<and> (\<forall>x\<in>set rest. priority r \<le> priority x)"
    then show ?thesis using roots by auto
  next
    assume a: "1 \<le> i \<and> i < 1 + length rest \<and> priority (rest ! (i - 1)) < priority r \<and>
      (\<forall>x\<in>set rest. priority (rest ! (i - 1)) \<le> priority x)"
    then have "roots ! i = rest ! (i - 1)" using roots by (simp add: nth_Cons')
    then show ?thesis using a roots by auto
  qed
qed

lemma erase_mset:
  assumes "i < length roots"
  shows "heap_mset roots =
         mset (node_entries (roots ! i)) + heap_mset (take i roots @ drop (i + 1) roots)"
proof -
  have "heap_mset roots = heap_mset (take i roots @ roots ! i # drop (Suc i) roots)"
    using assms by (simp add: id_take_nth_drop [symmetric])
  then show ?thesis by simp
qed

lemma extractMin_nonempty:
  assumes "roots \<noteq> []"
  obtains i where "findMinNodeIterator roots = Some i" "i < length roots"
    "\<forall>r\<in>set roots. priority (roots ! i) \<le> priority r"
    "extractMin roots = (Inr (passengerId (roots ! i)),
       consolidate (mergeRootLists (take i roots @ drop (i + 1) roots) (rev (child (roots ! i)))))"
proof -
  from assms obtain i where i: "findMinNodeIterator roots = Some i"
    by (cases "findMinNodeIterator roots") auto
  show thesis
    using findMinNodeIterator_Some [OF i] i
    by (intro that [of i]) (simp_all add: extractMin_def Let_def)
qed

lemma extractMin_mset:
  assumes "roots \<noteq> []"
  shows "\<exists>i h'. findMinNodeIterator roots = Some i \<and> i < length roots \<and>
           extractMin roots = (Inr (passengerId (roots ! i)), h') \<and>
           heap_mset roots = {#(priority (roots ! i), passengerId (roots ! i))#} + heap_mset h'"
proof -
  from extractMin_nonempty [OF assms] obtain i where
    i: "findMinNodeIterator roots = Some i" "i < length roots"
    and ex: "extractMin roots = (Inr (passengerId (roots ! i)),
       consolidate (mergeRootLists (take i roots @ drop (i + 1) roots) (rev (child (roots ! i)))))"
    by blast
  have "heap_mset roots = {#(priority (roots ! i), passengerId (roots ! i))#} +
        heap_mset (consolidate (mergeRootLists (take i roots @ drop (i + 1) roots) (rev (child (roots ! i)))))"
    by (subst erase_mset [OF i(2)]) (simp add: heap_mset_merge node_entries_sel [of "roots ! i"])
  then show ?thesis using i ex by blast
qed

lemma extractMin_empty [simp]:
  "extractMin [] = (Inl (runtime_error ''Cannot extract from empty heap''), [])"
  by (simp add: extractMin_def findMinNodeIterator_def)

lemma extractMin_getSize:
  assumes "roots \<noteq> []"
  shows "getSize (snd (extractMin roots)) + 1 = getSize roots"
proof -
  from extractMin_mset [OF assms] obtain i h' where
    "extractMin roots = (Inr (passengerId (roots ! i)), h')"
    "heap_mset roots = {#(priority (roots ! i), passengerId (roots ! i))#} + heap_mset h'"
    by blast
  then have "size (heap_mset roots) = size (heap_mset h') + 1" "snd (extractMin roots) = h'"
    by simp_all
  then show ?thesis by (simp add: getSize_eq)
qed

lemma insert_getSize: "getSize (insert p i roots) = getSize roots + 1"
proof -
  have "size (heap_mset (insert p i roots)) = size (heap_mset roots) + 1" by simp
  then show ?thesis by (simp add: getSize_eq del: insert_mset)
qed




section \<open>Invariants of the degree table\<close>

text \<open>
  \<^const>\<open>consolidate\<close> keeps every property of the slots that its links keep. This is
  used twice: for min-heap order (the same property in every slot) and for the binomial
  shape (slot \<open>d\<close> holds a tree of degree \<open>d\<close>).
\<close>

lemma table_inv_replicate [simp]: "table_inv P (replicate n None)"
  by (simp add: table_inv_def)

lemma table_inv_clear: "table_inv P t \<Longrightarrow> table_inv P (t[d := None])"
  unfolding table_inv_def
  by (metis length_list_update nth_list_update_eq nth_list_update_neq option.distinct(1))

lemma table_inv_store: "table_inv P t \<Longrightarrow> P d c \<Longrightarrow> table_inv P (t[d := Some c])"
  unfolding table_inv_def
  by (metis length_list_update nth_list_update_eq nth_list_update_neq option.inject)

lemma table_inv_resize: "table_inv P t \<Longrightarrow> table_inv P (t @ replicate k None)"
  by (auto simp: table_inv_def nth_append split: if_splits)

lemma consolidate_link_inv_aux:
  assumes "link_closed P"
  shows "P d c \<Longrightarrow> table_inv P t \<Longrightarrow>
         (case consolidate_link c d t of (c', d', t') \<Rightarrow> P d' c' \<and> table_inv P t')"
proof (induction c d t rule: consolidate_link.induct)
  case (1 current d degree_table)
  show ?case
  proof (cases "d < length degree_table")
    case False
    then show ?thesis using "1.prems" by (subst consolidate_link.simps) simp
  next
    case True
    show ?thesis
    proof (cases "degree_table ! d")
      case None
      then show ?thesis using True "1.prems" by (subst consolidate_link.simps) simp
    next
      case (Some other)
      have other: "P d other" using "1.prems"(2) True Some by (simp add: table_inv_def)
      have t': "table_inv P (degree_table[d := None])"
        using "1.prems"(2) by (rule table_inv_clear)
      show ?thesis
      proof (cases "priority other < priority current")
        case less: True
        have "P (d + 1) (link current other)"
          using assms other "1.prems"(1) less by (simp add: link_closed_def)
        from "1.IH"(1) [OF True Some less this t'] show ?thesis
          using True Some less by (subst consolidate_link.simps) simp
      next
        case ge: False
        have "P (d + 1) (link other current)"
          using assms other "1.prems"(1) ge by (simp add: link_closed_def)
        from "1.IH"(2) [OF True Some ge this t'] show ?thesis
          using True Some ge by (subst consolidate_link.simps) simp
      qed
    qed
  qed
qed

lemma consolidate_link_inv:
  assumes "link_closed P" "P d c" "table_inv P t" "consolidate_link c d t = (c', d', t')"
  shows "P d' c' \<and> table_inv P t'"
  using consolidate_link_inv_aux [OF assms(1-3)] assms(4) by simp

lemma consolidate_place_inv:
  "table_inv P t \<Longrightarrow> P d c \<Longrightarrow> table_inv P (consolidate_place c d t)"
  by (simp add: consolidate_place_def table_inv_store table_inv_resize)

lemma consolidate_loop_inv:
  assumes "link_closed P"
  shows "\<forall>r\<in>set rs. P (degree r) r \<Longrightarrow> table_inv P t \<Longrightarrow> table_inv P (consolidate_loop rs t)"
proof (induction rs arbitrary: t)
  case Nil
  then show ?case by simp
next
  case (Cons r rs)
  obtain c' d' t' where cl: "consolidate_link r (degree r) t = (c', d', t')"
    by (cases "consolidate_link r (degree r) t") auto
  have "P d' c' \<and> table_inv P t'"
    using Cons.prems by (intro consolidate_link_inv [OF assms _ _ cl]) simp_all
  then have "table_inv P (consolidate_place c' d' t')" by (simp add: consolidate_place_inv)
  then show ?case using Cons.IH [of "consolidate_place c' d' t'"] Cons.prems(1) cl by simp
qed

lemma table_roots_inv: "table_inv P t \<Longrightarrow> n \<in> set (table_roots t) \<Longrightarrow> \<exists>d. P d n"
proof (induction t arbitrary: P rule: table_roots.induct)
  case 1
  then show ?case by simp
next
  case (2 t)
  have "table_inv (\<lambda>d. P (Suc d)) t" using "2.prems"(1) by (force simp: table_inv_def)
  from "2.IH" [OF this] "2.prems"(2) show ?case by auto
next
  case (3 m t)
  have "table_inv (\<lambda>d. P (Suc d)) t" using "3.prems"(1) by (force simp: table_inv_def)
  moreover have "P 0 m" using "3.prems"(1) by (force simp: table_inv_def)
  ultimately show ?case using "3.IH" [of "\<lambda>d. P (Suc d)"] "3.prems"(2) by auto
qed

lemma consolidate_pred:
  assumes "link_closed (\<lambda>d. Q)" "\<forall>r\<in>set roots. Q r"
  shows "\<forall>r\<in>set (consolidate roots). Q r"
proof (cases "length roots \<le> 1")
  case True
  then show ?thesis using assms(2) by (simp add: consolidate_def)
next
  case False
  let ?t = "consolidate_loop roots (replicate (max_degree_possible roots) None)"
  have "table_inv (\<lambda>d. Q) ?t" using assms by (intro consolidate_loop_inv) simp_all
  then have "\<forall>r\<in>set (table_roots ?t). Q r" using table_roots_inv by blast
  then show ?thesis using False by (simp add: consolidate_def)
qed




section \<open>Min-heap order\<close>

lemma set_heap_entries: "set (heap_entries xs) = (\<Union>r\<in>set xs. set (node_entries r))"
  by (simp add: heap_entries_def)

lemma heap_order_sel:
  "heap_order r \<longleftrightarrow>
   (\<forall>c\<in>set (child r). heap_order c \<and> (\<forall>e\<in>set (node_entries c). priority r \<le> fst e))"
  by (cases r) simp

lemma heap_order_min: "heap_order r \<Longrightarrow> e \<in> set (node_entries r) \<Longrightarrow> priority r \<le> fst e"
  by (cases r) (auto simp: set_heap_entries heap_entries_def)

lemma heap_order_link:
  assumes "heap_order y" "heap_order z" "priority z \<le> priority y"
  shows "heap_order (link y z)"
proof -
  have "\<forall>e\<in>set (node_entries y). priority z \<le> fst e"
    using heap_order_min [OF assms(1)] assms(3) by force
  then show ?thesis
    using assms(1,2) by (simp add: link_def heap_order_sel [of z])
qed

lemma link_closed_heap_order: "link_closed (\<lambda>d. heap_order)"
  by (simp add: link_closed_def heap_order_link)

lemma set_mergeRootLists [simp]: "set (mergeRootLists xs ys) = set xs \<union> set ys"
  by (induction xs ys rule: mergeRootLists.induct) auto

lemma heap_ordered_consolidate: "heap_ordered roots \<Longrightarrow> heap_ordered (consolidate roots)"
  unfolding heap_ordered_def by (rule consolidate_pred [OF link_closed_heap_order])

lemma heap_ordered_insert: "heap_ordered roots \<Longrightarrow> heap_ordered (insert p i roots)"
  unfolding insert_def
  by (rule heap_ordered_consolidate) (auto simp: heap_ordered_def new_node_def)

lemma set_erase: "set (take i xs @ drop (i + 1) xs) \<subseteq> set xs"
  by (auto dest: in_set_takeD in_set_dropD)

lemma heap_ordered_extractMin:
  assumes "heap_ordered roots"
  shows "heap_ordered (snd (extractMin roots))"
proof (cases "roots = []")
  case True
  then show ?thesis by (simp add: heap_ordered_def)
next
  case False
  from extractMin_nonempty [OF False] obtain i where i: "i < length roots"
    and ex: "extractMin roots = (Inr (passengerId (roots ! i)),
       consolidate (mergeRootLists (take i roots @ drop (i + 1) roots) (rev (child (roots ! i)))))"
    by blast
  have "heap_order (roots ! i)" using assms i by (simp add: heap_ordered_def)
  then have "\<forall>c\<in>set (child (roots ! i)). heap_order c" by (subst (asm) heap_order_sel) blast
  moreover have "\<forall>r\<in>set (take i roots @ drop (i + 1) roots). heap_order r"
    using assms set_erase [of i roots] by (auto simp: heap_ordered_def)
  ultimately have "heap_ordered (mergeRootLists (take i roots @ drop (i + 1) roots) (rev (child (roots ! i))))"
    by (auto simp: heap_ordered_def)
  then show ?thesis using ex by (simp add: heap_ordered_consolidate)
qed

lemma findMin_global:
  assumes "heap_ordered roots" "findMinNodeIterator roots = Some i"
    and "e \<in> set (heap_entries roots)"
  shows "priority (roots ! i) \<le> fst e"
proof -
  from assms(3) obtain r where r: "r \<in> set roots" "e \<in> set (node_entries r)"
    by (auto simp: set_heap_entries)
  have "priority (roots ! i) \<le> priority r"
    using findMinNodeIterator_Some [OF assms(2)] r(1) by blast
  also have "priority r \<le> fst e"
    using assms(1) r by (auto simp: heap_ordered_def intro: heap_order_min)
  finally show ?thesis .
qed

section \<open>Binomial shape\<close>

lemma binomial_tree_sel:
  "binomial_tree r \<longleftrightarrow>
   (length (child r) = degree r \<and> mset (map degree (child r)) = mset [0..<degree r] \<and>
    (\<forall>c\<in>set (child r). binomial_tree c))"
  by (cases r) simp

lemma binomial_tree_link:
  assumes "binomial_tree y" "binomial_tree z" "degree y = degree z"
  shows "binomial_tree (link y z) \<and> degree (link y z) = degree z + 1"
  using assms by (cases z) (simp add: link_def del: mset_map mset_upt)

lemma link_closed_binomial: "link_closed (\<lambda>d n. degree n = d \<and> binomial_tree n)"
  unfolding link_closed_def using binomial_tree_link by auto

lemma table_roots_sorted:
  "table_inv (\<lambda>d n. degree n = k + d) t \<Longrightarrow>
   sorted_wrt (<) (map degree (table_roots t)) \<and> (\<forall>n\<in>set (table_roots t). k \<le> degree n)"
proof (induction t arbitrary: k rule: table_roots.induct)
  case 1
  then show ?case by simp
next
  case (2 t)
  have "table_inv (\<lambda>d n. degree n = Suc k + d) t" using "2.prems" by (force simp: table_inv_def)
  from "2.IH" [OF this] show ?case by auto
next
  case (3 m t)
  have "table_inv (\<lambda>d n. degree n = Suc k + d) t" using "3.prems" by (force simp: table_inv_def)
  moreover have "degree m = k" using "3.prems" by (force simp: table_inv_def)
  ultimately show ?case using "3.IH" [of "Suc k"] by auto
qed

lemma binomial_heap_consolidate:
  assumes "\<forall>r\<in>set roots. binomial_tree r"
  shows "binomial_heap (consolidate roots)"
proof (cases "length roots \<le> 1")
  case True
  then have "sorted_wrt (<) (map degree roots)" by (cases roots) auto
  then show ?thesis using True assms by (simp add: consolidate_def binomial_heap_def)
next
  case False
  let ?P = "\<lambda>d n. degree n = d \<and> binomial_tree n"
  let ?t = "consolidate_loop roots (replicate (max_degree_possible roots) None)"
  have inv: "table_inv ?P ?t"
    using assms by (intro consolidate_loop_inv [OF link_closed_binomial]) simp_all
  then have "table_inv (\<lambda>d n. degree n = 0 + d) ?t" by (simp add: table_inv_def)
  then have sorted: "sorted_wrt (<) (map degree (table_roots ?t))"
    using table_roots_sorted by blast
  then have "sort_key degree (table_roots ?t) = table_roots ?t"
    by (intro sort_key_id_if_sorted strict_sorted_imp_sorted)
  then have "consolidate roots = table_roots ?t" using False by (simp add: consolidate_def)
  moreover have "\<forall>r\<in>set (table_roots ?t). binomial_tree r"
    using table_roots_inv [OF inv] by blast
  ultimately show ?thesis using sorted by (simp add: binomial_heap_def)
qed

lemma binomial_heap_insert: "binomial_heap roots \<Longrightarrow> binomial_heap (insert p i roots)"
  unfolding insert_def
  by (rule binomial_heap_consolidate) (auto simp: binomial_heap_def new_node_def)

lemma binomial_heap_extractMin:
  assumes "binomial_heap roots"
  shows "binomial_heap (snd (extractMin roots))"
proof (cases "roots = []")
  case True
  then show ?thesis by (simp add: binomial_heap_def)
next
  case False
  from extractMin_nonempty [OF False] obtain i where i: "i < length roots"
    and ex: "extractMin roots = (Inr (passengerId (roots ! i)),
       consolidate (mergeRootLists (take i roots @ drop (i + 1) roots) (rev (child (roots ! i)))))"
    by blast
  have "binomial_tree (roots ! i)" using assms i by (simp add: binomial_heap_def)
  then have "\<forall>c\<in>set (child (roots ! i)). binomial_tree c"
    by (subst (asm) binomial_tree_sel) blast
  moreover have "\<forall>r\<in>set (take i roots @ drop (i + 1) roots). binomial_tree r"
    using assms set_erase [of i roots] by (auto simp: binomial_heap_def)
  ultimately have "\<forall>r\<in>set (mergeRootLists (take i roots @ drop (i + 1) roots) (rev (child (roots ! i)))). binomial_tree r"
    by auto
  then show ?thesis using ex by (simp add: binomial_heap_consolidate)
qed

lemma sum_pow2: "(\<Sum>k\<leftarrow>[0..<d]. (2::nat) ^ k) + 1 = 2 ^ d"
  by (induction d) simp_all

lemma binomial_tree_size: "binomial_tree r \<Longrightarrow> length (node_entries r) = 2 ^ degree r"
proof (induction r)
  case (Node p i d cs)
  have "length (concat (map node_entries cs)) = (\<Sum>c\<leftarrow>cs. length (node_entries c))"
    by (simp add: length_concat comp_def)
  also have "\<dots> = (\<Sum>c\<leftarrow>cs. 2 ^ degree c)"
    using Node by (intro arg_cong [where f = sum_list] map_cong) auto
  also have "\<dots> = sum_mset (image_mset (\<lambda>k. 2 ^ k) (mset (map degree cs)))"
    by (simp add: sum_mset_sum_list [symmetric] multiset.map_comp comp_def)
  also have "\<dots> = sum_mset (image_mset (\<lambda>k. 2 ^ k) (mset [0..<d]))"
    using Node.prems by (simp del: mset_map mset_upt)
  also have "\<dots> = (\<Sum>k\<leftarrow>[0..<d]. 2 ^ k)"
    by (simp add: sum_mset_sum_list [symmetric] del: mset_upt)
  finally show ?case using sum_pow2 [of d] by simp
qed

section \<open>The ordered drain\<close>

lemma findMinPriority_snd [simp]: "snd (findMinPriority roots) = roots"
  by (simp add: findMinPriority_def split: option.splits)

lemma findMinPassengerId_snd [simp]: "snd (findMinPassengerId roots) = roots"
  by (simp add: findMinPassengerId_def split: option.splits)

termination getWaitlistOrdered_loop
proof (relation "measure (\<lambda>(roots, waitlist). getSize roots)")
  fix roots :: BinomialHeap and waitlist :: "(int \<times> int) list"
    and x y prio r2 roots2 passId
  assume ne: "\<not> isEmpty roots" and f: "(x, y) = findMinPriority roots"
    and ex: "(r2, roots2) = extractMin y"
  from f have y: "y = roots" by (metis findMinPriority_snd snd_conv)
  from ne have "roots \<noteq> []" by (simp add: isEmpty_def)
  from extractMin_getSize [OF this] ex y
  show "((roots2, waitlist @ [(prio, passId)]), roots, waitlist)
          \<in> measure (\<lambda>(roots, waitlist). getSize roots)"
    by (metis (no_types, lifting) add.commute case_prod_conv in_measure
        plus_1_eq_Suc snd_conv less_Suc_eq)
qed simp

declare getWaitlistOrdered_loop.simps [simp del]

lemma drain_loop:
  "heap_ordered roots \<Longrightarrow>
   \<exists>out. getWaitlistOrdered_loop roots waitlist = (Inr (waitlist @ out), []) \<and>
         mset out = heap_mset roots \<and> sorted (map fst out)"
proof (induction roots waitlist rule: getWaitlistOrdered_loop.induct)
  case (1 roots waitlist)
  show ?case
  proof (cases "roots = []")
    case True
    then show ?thesis by (subst getWaitlistOrdered_loop.simps) (simp add: isEmpty_def)
  next
    case False
    from extractMin_mset [OF False] obtain i h' where
      i: "findMinNodeIterator roots = Some i" "i < length roots"
      and ex: "extractMin roots = (Inr (passengerId (roots ! i)), h')"
      and ms: "heap_mset roots = {#(priority (roots ! i), passengerId (roots ! i))#} + heap_mset h'"
      by blast
    let ?p = "priority (roots ! i)" and ?id = "passengerId (roots ! i)"
    have fm: "findMinPriority roots = (Inr ?p, roots)"
      using i by (simp add: findMinPriority_def)
    have ho: "heap_ordered h'" using heap_ordered_extractMin [OF "1.prems"] ex by simp
    have ne: "\<not> isEmpty roots" using False by (simp add: isEmpty_def)
    from "1.IH" [OF ne fm [symmetric] refl ex [symmetric] refl ho]
    obtain out' where out': "getWaitlistOrdered_loop h' (waitlist @ [(?p, ?id)]) =
        (Inr ((waitlist @ [(?p, ?id)]) @ out'), [])"
      "mset out' = heap_mset h'" "sorted (map fst out')"
      by blast
    have "\<forall>e\<in>set out'. ?p \<le> fst e"
    proof
      fix e assume "e \<in> set out'"
      then have "e \<in># heap_mset h'" using out'(2) by (metis set_mset_mset)
      then have "e \<in># heap_mset roots" using ms by simp
      then show "?p \<le> fst e" using findMin_global [OF "1.prems" i(1)] by simp
    qed
    then have "sorted (map fst ((?p, ?id) # out'))" using out'(3) by simp
    moreover have "mset ((?p, ?id) # out') = heap_mset roots" using ms out'(2) by simp
    moreover have "getWaitlistOrdered_loop roots waitlist = (Inr (waitlist @ (?p, ?id) # out'), [])"
      using out'(1) ne fm ex by (subst getWaitlistOrdered_loop.simps) simp
    ultimately show ?thesis by blast
  qed
qed

lemma heap_ordered_fold_insert:
  "heap_ordered roots \<Longrightarrow> heap_ordered (fold (\<lambda>(p, passenger). insert p passenger) xs roots)"
  by (induction xs arbitrary: roots) (auto simp: heap_ordered_insert)

lemma heap_mset_fold_insert:
  "heap_mset (fold (\<lambda>(p, passenger). insert p passenger) xs roots) = mset xs + heap_mset roots"
  by (induction xs arbitrary: roots) auto

lemma heap_ordered_Nil [simp]: "heap_ordered []"
  by (simp add: heap_ordered_def)

lemma binomial_heap_Nil [simp]: "binomial_heap []"
  by (simp add: binomial_heap_def)

text \<open>
  Claim C1. For the heap built by any sequence of inserts,
  \<^verbatim>\<open>getWaitlistOrdered_destructive\<close> returns (it does not throw, and the loop ends) a
  list of (priority, passengerId) pairs that is non-decreasing in priority, whose length
  is what \<^verbatim>\<open>getSize\<close> returned before the call, and that holds exactly the inserted
  pairs; the heap is empty afterwards.
\<close>

theorem drainOrdered_sorted:
  "\<exists>out. getWaitlistOrdered_destructive (insert_all xs) = (Inr out, []) \<and>
         sorted (map fst out) \<and>
         length out = getSize (insert_all xs) \<and>
         mset out = mset xs \<and>
         isEmpty (snd (getWaitlistOrdered_destructive (insert_all xs)))"
proof -
  have "heap_ordered (insert_all xs)"
    unfolding insert_all_def by (rule heap_ordered_fold_insert) simp
  from drain_loop [OF this, of "[]"] obtain out where
    out: "getWaitlistOrdered_loop (insert_all xs) [] = (Inr out, [])"
      "mset out = heap_mset (insert_all xs)" "sorted (map fst out)"
    by auto
  have "length out = getSize (insert_all xs)"
    using out(2) by (metis getSize_eq size_mset)
  moreover have "mset out = mset xs"
    using out(2) by (simp add: insert_all_def heap_mset_fold_insert)
  ultimately show ?thesis
    using out by (simp add: getWaitlistOrdered_destructive_def isEmpty_def)
qed

theorem drainOrdered_sorted_witness:
  "getWaitlistOrdered_destructive (insert_all [(5, 1), (3, 2), (8, 3)]) =
     (Inr [(3, 2), (5, 1), (8, 3)], []) \<and>
   sorted (map fst [(3 :: int, 2 :: int), (5, 1), (8, 3)]) \<and>
   length [(3 :: int, 2 :: int), (5, 1), (8, 3)] = getSize (insert_all [(5, 1), (3, 2), (8, 3)])"
proof -
  have run: "getWaitlistOrdered_destructive (insert_all [(5, 1), (3, 2), (8, 3)]) =
     (Inr [(3, 2), (5, 1), (8, 3)], [])"
    by code_simp
  from drainOrdered_sorted [of "[(5, 1), (3, 2), (8, 3)]"] show ?thesis
    unfolding run by auto
qed

section \<open>Invariants of the reachable heaps\<close>

lemma heap_ordered_apply_op: "heap_ordered roots \<Longrightarrow> heap_ordered (apply_op op roots)"
  by (cases op) (simp_all add: heap_ordered_insert heap_ordered_extractMin)

lemma heap_ordered_fold_ops: "heap_ordered roots \<Longrightarrow> heap_ordered (fold apply_op ops roots)"
  by (induction ops arbitrary: roots) (simp_all add: heap_ordered_apply_op)

lemma binomial_heap_apply_op: "binomial_heap roots \<Longrightarrow> binomial_heap (apply_op op roots)"
  by (cases op) (simp_all add: binomial_heap_insert binomial_heap_extractMin)

lemma binomial_heap_fold_ops: "binomial_heap roots \<Longrightarrow> binomial_heap (fold apply_op ops roots)"
  by (induction ops arbitrary: roots) (simp_all add: binomial_heap_apply_op)

text \<open>
  Claim C2. In every heap reached from the empty heap by inserts and extractions, every
  tree is in min-heap order: at every node, the priority is at most the priority of every
  entry below it.
\<close>

theorem heap_order_reachable: "\<forall>r\<in>set (run_ops ops []). heap_order r"
  using heap_ordered_fold_ops [of "[]" ops] by (simp add: run_ops_def heap_ordered_def)

theorem heap_order_reachable_witness:
  "run_ops [Insert 5 1, Insert 3 2, Insert 8 3, ExtractMin, Insert 1 4] [] =
     [Node 1 4 0 [], Node 5 1 1 [Node 8 3 0 []]] \<and>
   heap_order (Node 1 4 0 []) \<and> heap_order (Node 5 1 1 [Node 8 3 0 []])"
proof -
  have run: "run_ops [Insert 5 1, Insert 3 2, Insert 8 3, ExtractMin, Insert 1 4] [] =
     [Node 1 4 0 [], Node 5 1 1 [Node 8 3 0 []]]"
    by code_simp
  show ?thesis
    using heap_order_reachable [of "[Insert 5 1, Insert 3 2, Insert 8 3, ExtractMin, Insert 1 4]"]
    by (simp add: run)
qed

text \<open>
  Claim C3. After every insert and extraction, starting from the empty heap, the degrees
  of the roots are pairwise distinct and ascending along the root list, every node of
  degree \<open>d\<close> has exactly \<open>d\<close> children whose degrees are \<open>0, \<dots>, d - 1\<close>, each once, and
  every root of degree \<open>d\<close> is the root of a tree of exactly \<open>2 ^ d\<close> nodes.
\<close>

theorem binomial_structure_reachable:
  "distinct (map degree (run_ops ops [])) \<and> sorted (map degree (run_ops ops [])) \<and>
   (\<forall>r\<in>set (run_ops ops []). binomial_tree r \<and> length (node_entries r) = 2 ^ degree r)"
proof -
  have "binomial_heap (run_ops ops [])"
    using binomial_heap_fold_ops [of "[]" ops] by (simp add: run_ops_def)
  then show ?thesis
    by (auto simp: binomial_heap_def strict_sorted_iff binomial_tree_size)
qed

theorem binomial_structure_reachable_witness:
  "run_ops [Insert 5 1, Insert 3 2, Insert 8 3, ExtractMin, Insert 1 4] [] =
     [Node 1 4 0 [], Node 5 1 1 [Node 8 3 0 []]] \<and>
   distinct [0, 1 :: nat] \<and> sorted [0, 1 :: nat] \<and>
   binomial_tree (Node 1 4 0 []) \<and> binomial_tree (Node 5 1 1 [Node 8 3 0 []]) \<and>
   length (node_entries (Node 5 1 1 [Node 8 3 0 []])) = 2 ^ 1"
proof -
  have run: "run_ops [Insert 5 1, Insert 3 2, Insert 8 3, ExtractMin, Insert 1 4] [] =
     [Node 1 4 0 [], Node 5 1 1 [Node 8 3 0 []]]"
    by code_simp
  show ?thesis
    using binomial_structure_reachable [of "[Insert 5 1, Insert 3 2, Insert 8 3, ExtractMin, Insert 1 4]"]
    by (simp add: run)
qed

section \<open>Size\<close>

lemma run_checked_size:
  "run_checked ops roots = Inr roots' \<Longrightarrow>
   getSize roots' + length (filter (\<lambda>op. op = ExtractMin) ops) =
   getSize roots + length (filter (\<lambda>op. op \<noteq> ExtractMin) ops)"
proof (induction ops roots rule: run_checked.induct)
  case (1 roots)
  then show ?case by simp
next
  case (2 p passenger ops roots)
  then show ?case by (simp add: insert_getSize)
next
  case (3 ops roots)
  from "3.prems" obtain passenger h where ex: "extractMin roots = (Inr passenger, h)"
    and run: "run_checked ops h = Inr roots'"
    by (auto split: prod.splits sum.splits)
  have "roots \<noteq> []" using ex by auto
  from extractMin_getSize [OF this] ex have "getSize h + 1 = getSize roots" by simp
  then show ?case using "3.IH" [OF ex [symmetric] refl run] by simp
qed

text \<open>
  Claim C4. Starting from the empty heap, after a sequence of \<open>N\<close> inserts and \<open>M\<close>
  extractions none of which threw (none was applied to an empty heap), \<open>M \<le> N\<close> and
  \<^verbatim>\<open>getSize\<close> returns \<open>N - M\<close>.
\<close>

theorem size_conservation:
  assumes "run_checked ops [] = Inr roots"
  shows "length (filter (\<lambda>op. op = ExtractMin) ops) \<le> length (filter (\<lambda>op. op \<noteq> ExtractMin) ops) \<and>
         getSize roots =
           length (filter (\<lambda>op. op \<noteq> ExtractMin) ops) - length (filter (\<lambda>op. op = ExtractMin) ops)"
  using run_checked_size [OF assms] by (simp add: getSize_eq)

theorem size_conservation_witness:
  "run_checked [Insert 5 1, Insert 3 2, ExtractMin, Insert 8 3] [] =
     Inr [Node 5 1 1 [Node 8 3 0 []]] \<and>
   getSize [Node 5 1 1 [Node 8 3 0 []]] = 3 - 1"
proof -
  have run: "run_checked [Insert 5 1, Insert 3 2, ExtractMin, Insert 8 3] [] =
     Inr [Node 5 1 1 [Node 8 3 0 []]]"
    by code_simp
  show ?thesis using size_conservation [OF run] run by simp
qed

section \<open>The empty heap\<close>

text \<open>
  Claim C5. \<^verbatim>\<open>findMinPriority\<close>, \<^verbatim>\<open>findMinPassengerId\<close> and \<^verbatim>\<open>extractMin\<close> throw
  exactly when the root list is empty (\<^verbatim>\<open>isEmpty()\<close> is true); the heap is unchanged by
  an \<^verbatim>\<open>extractMin\<close> that throws, and by the two readers in every case.
\<close>

theorem empty_heap_errors:
  "(isl (fst (findMinPriority roots)) \<longleftrightarrow> isEmpty roots) \<and>
   (isl (fst (findMinPassengerId roots)) \<longleftrightarrow> isEmpty roots) \<and>
   (isl (fst (extractMin roots)) \<longleftrightarrow> isEmpty roots) \<and>
   (isEmpty roots \<longrightarrow>
      findMinPriority roots = (Inl (runtime_error ''Heap is empty''), roots) \<and>
      findMinPassengerId roots = (Inl (runtime_error ''Heap is empty''), roots) \<and>
      extractMin roots = (Inl (runtime_error ''Cannot extract from empty heap''), roots)) \<and>
   snd (findMinPriority roots) = roots \<and>
   snd (findMinPassengerId roots) = roots"
  by (cases roots)
     (simp_all add: findMinPriority_def findMinPassengerId_def extractMin_def isEmpty_def
        findMinNodeIterator_def Let_def)

theorem empty_heap_errors_witness:
  "isEmpty [] \<and>
   findMinPriority [] = (Inl (runtime_error ''Heap is empty''), []) \<and>
   findMinPassengerId [] = (Inl (runtime_error ''Heap is empty''), []) \<and>
   extractMin [] = (Inl (runtime_error ''Cannot extract from empty heap''), []) \<and>
   \<not> isEmpty [Node 4 7 0 []] \<and>
   findMinPriority [Node 4 7 0 []] = (Inr 4, [Node 4 7 0 []]) \<and>
   findMinPassengerId [Node 4 7 0 []] = (Inr 7, [Node 4 7 0 []]) \<and>
   extractMin [Node 4 7 0 []] = (Inr 7, [])"
proof -
  have e: "isEmpty []" by (simp add: isEmpty_def)
  have "findMinPriority [Node 4 7 0 []] = (Inr 4, [Node 4 7 0 []])"
       "findMinPassengerId [Node 4 7 0 []] = (Inr 7, [Node 4 7 0 []])"
       "extractMin [Node 4 7 0 []] = (Inr 7, [])"
    by code_simp+
  then show ?thesis using empty_heap_errors [of "[]"] e by (simp add: isEmpty_def)
qed

section \<open>Cancelling a booking\<close>

lemma flight_step_heap_ordered:
  assumes "heap_ordered (waitlistHeap f)"
  shows "heap_ordered (waitlistHeap (flight_step op f))"
proof (cases op)
  case (AddPassenger passenger prio)
  then show ?thesis using assms by (simp add: addPassenger_def heap_ordered_insert)
next
  case (CancelBooking passenger)
  have "heap_ordered (snd (extractMin (waitlistHeap f)))"
    using assms by (rule heap_ordered_extractMin)
  then show ?thesis
    using assms CancelBooking
    by (auto simp: cancelBooking_def Let_def split: prod.splits sum.splits)
qed

lemma flight_run_heap_ordered:
  "heap_ordered (waitlistHeap f) \<Longrightarrow> heap_ordered (waitlistHeap (flight_run ops f))"
  unfolding flight_run_def
  by (induction ops arbitrary: f) (simp_all add: flight_step_heap_ordered)

lemma reachable_heap_ordered:
  "heap_ordered (waitlistHeap (flight_run ops (Flight_ctor fid orig dest cap)))"
  by (rule flight_run_heap_ordered) (simp add: Flight_ctor_def)

lemma cancelBooking_absent:
  "passenger \<notin> set (confirmedPassengers f) \<Longrightarrow> cancelBooking passenger f = (False, f)"
  by (simp add: cancelBooking_def)

lemma cancelBooking_no_waitlist:
  "passenger \<in> set (confirmedPassengers f) \<Longrightarrow> waitlistHeap f = [] \<Longrightarrow>
   cancelBooking passenger f =
     (True, f\<lparr>confirmedPassengers := remove1 passenger (confirmedPassengers f)\<rparr>)"
  by (simp add: cancelBooking_def isEmpty_def)

lemma cancelBooking_promote:
  assumes "passenger \<in> set (confirmedPassengers f)" "waitlistHeap f \<noteq> []"
    and "heap_ordered (waitlistHeap f)"
  shows "\<exists>prio promoted roots'.
           cancelBooking passenger f =
             (True, f\<lparr>confirmedPassengers :=
                          remove1 passenger (confirmedPassengers f) @ [promoted],
                      waitlistHeap := roots'\<rparr>) \<and>
           extractMin (waitlistHeap f) = (Inr promoted, roots') \<and>
           (\<forall>e\<in>set (heap_entries (waitlistHeap f)). prio \<le> fst e) \<and>
           heap_mset (waitlistHeap f) = {#(prio, promoted)#} + heap_mset roots'"
proof -
  let ?h = "waitlistHeap f"
  from extractMin_mset [OF assms(2)] obtain i h' where
    i: "findMinNodeIterator ?h = Some i"
    and ex: "extractMin ?h = (Inr (passengerId (?h ! i)), h')"
    and ms: "heap_mset ?h = {#(priority (?h ! i), passengerId (?h ! i))#} + heap_mset h'"
    by blast
  have "\<forall>e\<in>set (heap_entries ?h). priority (?h ! i) \<le> fst e"
    using findMin_global [OF assms(3) i] by blast
  moreover have "cancelBooking passenger f =
      (True, f\<lparr>confirmedPassengers :=
                   remove1 passenger (confirmedPassengers f) @ [passengerId (?h ! i)],
               waitlistHeap := h'\<rparr>)"
    using assms(1,2) ex by (simp add: cancelBooking_def isEmpty_def)
  ultimately show ?thesis using ms ex by blast
qed

text \<open>
  Claim C6. In every state of a flight reached from its construction by
  \<^verbatim>\<open>addPassenger\<close> and \<^verbatim>\<open>cancelBooking\<close> calls, \<^verbatim>\<open>cancelBooking(p)\<close> does this.
  If \<open>p\<close> is not in the confirmed list, the result is false and nothing changes, whether
  or not \<open>p\<close> is on the waitlist. If \<open>p\<close> is in the confirmed list, the result is true and
  (its first occurrence) is removed; when the waitlist is empty nothing else happens;
  when it is not, an entry of minimal priority is taken out of the heap and its passenger
  is appended to the confirmed list. In particular, when the confirmed passengers are
  \<open>A\<close> and \<open>B\<close> and the waitlist holds \<open>C\<close> with priority \<open>pc\<close> and \<open>D\<close> with priority
  \<open>pd\<close>, \<open>pc < pd\<close>, cancelling \<open>A\<close> leaves \<open>B\<close> and \<open>C\<close> confirmed and only \<open>D\<close> waitlisted.
\<close>

theorem cancelBooking_behaviour:
  fixes ops fid orig dest cap
  defines "f \<equiv> flight_run ops (Flight_ctor fid orig dest cap)"
  shows
    "(p \<notin> set (confirmedPassengers f) \<longrightarrow> cancelBooking p f = (False, f)) \<and>
     (p \<in> set (confirmedPassengers f) \<and> isEmpty (waitlistHeap f) \<longrightarrow>
        cancelBooking p f = (True, f\<lparr>confirmedPassengers := remove1 p (confirmedPassengers f)\<rparr>)) \<and>
     (p \<in> set (confirmedPassengers f) \<and> \<not> isEmpty (waitlistHeap f) \<longrightarrow>
        (\<exists>prio promoted roots'.
           cancelBooking p f =
             (True, f\<lparr>confirmedPassengers := remove1 p (confirmedPassengers f) @ [promoted],
                      waitlistHeap := roots'\<rparr>) \<and>
           (\<forall>e\<in>set (heap_entries (waitlistHeap f)). prio \<le> fst e) \<and>
           heap_mset (waitlistHeap f) = {#(prio, promoted)#} + heap_mset roots')) \<and>
     (mset (confirmedPassengers f) = {#A, B#} \<and>
      heap_mset (waitlistHeap f) = {#(pc, C), (pd, D)#} \<and> pc < pd \<longrightarrow>
        fst (cancelBooking A f) \<and>
        mset (confirmedPassengers (snd (cancelBooking A f))) = {#B, C#} \<and>
        heap_entries (waitlistHeap (snd (cancelBooking A f))) = [(pd, D)])"
proof (intro conjI impI)
  assume "p \<notin> set (confirmedPassengers f)"
  then show "cancelBooking p f = (False, f)" by (rule cancelBooking_absent)
next
  assume "p \<in> set (confirmedPassengers f) \<and> isEmpty (waitlistHeap f)"
  then show "cancelBooking p f =
      (True, f\<lparr>confirmedPassengers := remove1 p (confirmedPassengers f)\<rparr>)"
    by (simp add: cancelBooking_no_waitlist isEmpty_def)
next
  have ho: "heap_ordered (waitlistHeap f)" unfolding f_def by (rule reachable_heap_ordered)
  {
    assume a: "p \<in> set (confirmedPassengers f) \<and> \<not> isEmpty (waitlistHeap f)"
    then have "waitlistHeap f \<noteq> []" by (simp add: isEmpty_def)
    from cancelBooking_promote [OF _ this ho, of p] a
    show "\<exists>prio promoted roots'.
           cancelBooking p f =
             (True, f\<lparr>confirmedPassengers := remove1 p (confirmedPassengers f) @ [promoted],
                      waitlistHeap := roots'\<rparr>) \<and>
           (\<forall>e\<in>set (heap_entries (waitlistHeap f)). prio \<le> fst e) \<and>
           heap_mset (waitlistHeap f) = {#(prio, promoted)#} + heap_mset roots'"
      by blast
  }
  assume s: "mset (confirmedPassengers f) = {#A, B#} \<and>
      heap_mset (waitlistHeap f) = {#(pc, C), (pd, D)#} \<and> pc < pd"
  then have inA: "A \<in> set (confirmedPassengers f)"
    by (metis insert_iff set_mset_add_mset_insert set_mset_mset)
  have ne: "waitlistHeap f \<noteq> []" using s by auto
  from cancelBooking_promote [OF inA ne ho] obtain prio promoted roots' where
    c: "cancelBooking A f =
             (True, f\<lparr>confirmedPassengers := remove1 A (confirmedPassengers f) @ [promoted],
                      waitlistHeap := roots'\<rparr>)"
    and mn: "\<forall>e\<in>set (heap_entries (waitlistHeap f)). prio \<le> fst e"
    and ms: "heap_mset (waitlistHeap f) = {#(prio, promoted)#} + heap_mset roots'"
    by blast
  have "(prio, promoted) \<in># heap_mset (waitlistHeap f)" by (subst ms) simp
  then have "(prio, promoted) \<in># {#(pc, C), (pd, D)#}" using s by simp
  moreover have "prio \<le> pc"
  proof -
    have "(pc, C) \<in># heap_mset (waitlistHeap f)" using s by simp
    then have "(pc, C) \<in> set (heap_entries (waitlistHeap f))" by simp
    then show ?thesis using mn by force
  qed
  ultimately have pq: "prio = pc" "promoted = C" using s by auto
  then have "{#(pc, C), (pd, D)#} = {#(pc, C)#} + heap_mset roots'" using ms s by simp
  then have "heap_mset roots' = {#(pd, D)#}" by simp
  then have r': "heap_entries roots' = [(pd, D)]" by simp
  have "mset (remove1 A (confirmedPassengers f)) = {#B#}" using s by simp
  then have "mset (remove1 A (confirmedPassengers f) @ [C]) = {#B, C#}" by simp
  then show "fst (cancelBooking A f)"
    "mset (confirmedPassengers (snd (cancelBooking A f))) = {#B, C#}"
    "heap_entries (waitlistHeap (snd (cancelBooking A f))) = [(pd, D)]"
    using c pq r' by simp_all
qed

theorem cancelBooking_behaviour_witness:
  "mset (confirmedPassengers (flight_run
      [AddPassenger 1 10, AddPassenger 2 20, AddPassenger 3 30, AddPassenger 4 40]
      (Flight_ctor ''AI101'' ''BOM'' ''DEL'' 2))) = {#1, 2#} \<and>
   heap_mset (waitlistHeap (flight_run
      [AddPassenger 1 10, AddPassenger 2 20, AddPassenger 3 30, AddPassenger 4 40]
      (Flight_ctor ''AI101'' ''BOM'' ''DEL'' 2))) = {#(30, 3), (40, 4)#} \<and>
   (30 :: int) < 40 \<and>
   fst (cancelBooking 1 (flight_run
      [AddPassenger 1 10, AddPassenger 2 20, AddPassenger 3 30, AddPassenger 4 40]
      (Flight_ctor ''AI101'' ''BOM'' ''DEL'' 2))) \<and>
   mset (confirmedPassengers (snd (cancelBooking 1 (flight_run
      [AddPassenger 1 10, AddPassenger 2 20, AddPassenger 3 30, AddPassenger 4 40]
      (Flight_ctor ''AI101'' ''BOM'' ''DEL'' 2))))) = {#2, 3#} \<and>
   heap_entries (waitlistHeap (snd (cancelBooking 1 (flight_run
      [AddPassenger 1 10, AddPassenger 2 20, AddPassenger 3 30, AddPassenger 4 40]
      (Flight_ctor ''AI101'' ''BOM'' ''DEL'' 2))))) = [(40, 4)]"
proof -
  let ?f = "flight_run
      [AddPassenger 1 10, AddPassenger 2 20, AddPassenger 3 30, AddPassenger 4 40]
      (Flight_ctor ''AI101'' ''BOM'' ''DEL'' 2)"
  have c: "confirmedPassengers ?f = [1, 2]" by code_simp
  have w: "heap_entries (waitlistHeap ?f) = [(30, 3), (40, 4)]" by code_simp
  have h: "mset (confirmedPassengers ?f) = {#1, 2#} \<and>
           heap_mset (waitlistHeap ?f) = {#(30, 3), (40, 4)#} \<and> (30 :: int) < 40"
    by (simp add: c w)
  from cancelBooking_behaviour
    [of 1 "[AddPassenger 1 10, AddPassenger 2 20, AddPassenger 3 30, AddPassenger 4 40]"
        "''AI101''" "''BOM''" "''DEL''" 2 1 2 30 3 40 4]
  have "fst (cancelBooking 1 ?f) \<and>
        mset (confirmedPassengers (snd (cancelBooking 1 ?f))) = {#2, 3#} \<and>
        heap_entries (waitlistHeap (snd (cancelBooking 1 ?f))) = [(40, 4)]"
    using h by blast
  then show ?thesis using h by blast
qed

section \<open>Capacity\<close>

lemma size_t_of_int_le: "0 \<le> c \<Longrightarrow> int (size_t_of_int c) \<le> c"
proof -
  assume "0 \<le> c"
  then have "c mod 2 ^ 64 \<le> c" by (intro zmod_le_nonneg_dividend)
  moreover have "0 \<le> c mod 2 ^ 64" by simp
  ultimately show ?thesis by (simp add: size_t_of_int_def)
qed

lemma capacity_flight_step [simp]: "capacity (flight_step op f) = capacity f"
  by (cases op)
     (auto simp: addPassenger_def cancelBooking_def Let_def split: prod.splits sum.splits)

lemma within_capacity_step:
  assumes "within_capacity f"
  shows "within_capacity (flight_step op f)"
proof (cases op)
  case (AddPassenger passenger prio)
  have "length (confirmedPassengers f) < size_t_of_int (capacity f) \<Longrightarrow>
        int (length (confirmedPassengers f)) + 1 \<le> capacity f"
    using size_t_of_int_le [of "capacity f"] assms by (simp add: within_capacity_def)
  then show ?thesis
    using assms AddPassenger by (auto simp: within_capacity_def addPassenger_def)
next
  case (CancelBooking passenger)
  have "passenger \<in> set (confirmedPassengers f) \<Longrightarrow>
        length (remove1 passenger (confirmedPassengers f)) + 1 = length (confirmedPassengers f)"
    by (simp add: length_remove1) (metis Suc_pred length_pos_if_in_set)
  then show ?thesis
    using assms CancelBooking
    by (auto simp: within_capacity_def cancelBooking_def Let_def split: prod.splits sum.splits)
qed

lemma within_capacity_run: "within_capacity f \<Longrightarrow> within_capacity (flight_run ops f)"
  unfolding flight_run_def
  by (induction ops arbitrary: f) (simp_all add: within_capacity_step)

lemma capacity_flight_run: "capacity (flight_run ops f) = capacity f"
  unfolding flight_run_def by (induction ops arbitrary: f) simp_all

text \<open>
  Claim C7. In the state the constructor produces and in every state reached from it by
  \<^verbatim>\<open>addPassenger\<close> and \<^verbatim>\<open>cancelBooking\<close> calls, the number of confirmed passengers is
  at most the capacity; the capacity is the constructor's argument, or zero when the
  argument is negative, and is never negative.
\<close>

theorem confirmed_within_capacity:
  "capacity (flight_run ops (Flight_ctor fid orig dest cap)) = max 0 cap \<and>
   0 \<le> capacity (flight_run ops (Flight_ctor fid orig dest cap)) \<and>
   int (length (confirmedPassengers (flight_run ops (Flight_ctor fid orig dest cap))))
     \<le> capacity (flight_run ops (Flight_ctor fid orig dest cap))"
proof -
  have "within_capacity (Flight_ctor fid orig dest cap)"
    by (simp add: within_capacity_def Flight_ctor_def)
  from within_capacity_run [OF this, of ops] show ?thesis
    by (simp add: within_capacity_def capacity_flight_run) (simp add: Flight_ctor_def max_def)
qed

theorem confirmed_within_capacity_witness:
  "confirmedPassengers (flight_run
      [AddPassenger 1 10, AddPassenger 2 20, AddPassenger 3 30, CancelBooking 1, AddPassenger 5 50]
      (Flight_ctor ''AI101'' ''BOM'' ''DEL'' 2)) = [2, 3] \<and>
   capacity (flight_run
      [AddPassenger 1 10, AddPassenger 2 20, AddPassenger 3 30, CancelBooking 1, AddPassenger 5 50]
      (Flight_ctor ''AI101'' ''BOM'' ''DEL'' 2)) = 2 \<and>
   capacity (flight_run [AddPassenger 1 10] (Flight_ctor ''AI101'' ''BOM'' ''DEL'' (- 3))) = 0 \<and>
   confirmedPassengers (flight_run [AddPassenger 1 10] (Flight_ctor ''AI101'' ''BOM'' ''DEL'' (- 3))) = []"
proof -
  have a: "confirmedPassengers (flight_run
      [AddPassenger 1 10, AddPassenger 2 20, AddPassenger 3 30, CancelBooking 1, AddPassenger 5 50]
      (Flight_ctor ''AI101'' ''BOM'' ''DEL'' 2)) = [2, 3]"
    by code_simp
  have b: "capacity (flight_run
      [AddPassenger 1 10, AddPassenger 2 20, AddPassenger 3 30, CancelBooking 1, AddPassenger 5 50]
      (Flight_ctor ''AI101'' ''BOM'' ''DEL'' 2)) = 2"
    using confirmed_within_capacity [of
      "[AddPassenger 1 10, AddPassenger 2 20, AddPassenger 3 30, CancelBooking 1, AddPassenger 5 50]"
      "''AI101''" "''BOM''" "''DEL''" 2]
    by simp
  have c: "capacity (flight_run [AddPassenger 1 10] (Flight_ctor ''AI101'' ''BOM'' ''DEL'' (- 3))) = 0 \<and>
    confirmedPassengers (flight_run [AddPassenger 1 10] (Flight_ctor ''AI101'' ''BOM'' ''DEL'' (- 3))) = []"
    using confirmed_within_capacity [of "[AddPassenger 1 10]" "''AI101''" "''BOM''" "''DEL''" "- 3"]
    by auto
  show ?thesis using a b c by blast
qed

section \<open>Double booking\<close>

lemma waitlisted_insert:
  "mset (map snd (heap_entries (insert prio passenger roots))) =
   {#passenger#} + mset (map snd (heap_entries roots))"
proof -
  have "image_mset snd (heap_mset (insert prio passenger roots)) =
        image_mset snd ({#(prio, passenger)#} + heap_mset roots)"
    by (simp only: insert_mset)
  then show ?thesis by simp
qed

lemma booked_add:
  assumes "distinct (booked f)" "passenger \<notin> set (waitlisted f)"
  shows "distinct (booked (snd (addPassenger passenger prio f)))"
proof -
  have "mset (booked (f\<lparr>waitlistHeap := insert prio passenger (waitlistHeap f)\<rparr>)) =
        mset (passenger # booked f)"
    by (simp add: booked_def waitlisted_def waitlisted_insert del: mset_map)
  then have "distinct (booked (f\<lparr>waitlistHeap := insert prio passenger (waitlistHeap f)\<rparr>)) =
        distinct (passenger # booked f)"
    by (rule mset_eq_imp_distinct_iff)
  then show ?thesis
    using assms by (auto simp: addPassenger_def booked_def waitlisted_def)
qed

lemma booked_cancel:
  assumes "distinct (booked f)"
  shows "distinct (booked (snd (cancelBooking passenger f)))"
proof (cases "passenger \<in> set (confirmedPassengers f)")
  case False
  then show ?thesis using assms by (simp add: cancelBooking_absent)
next
  case True
  let ?c = "remove1 passenger (confirmedPassengers f)"
  have d: "distinct (?c @ waitlisted f)"
    using assms by (auto simp: booked_def dest: notin_set_remove1)
  show ?thesis
  proof (cases "waitlistHeap f = []")
    case True
    then show ?thesis
      using d \<open>passenger \<in> set (confirmedPassengers f)\<close>
      by (simp add: cancelBooking_no_waitlist booked_def waitlisted_def)
  next
    case False
    from extractMin_mset [OF False] obtain i h' where
      ex: "extractMin (waitlistHeap f) = (Inr (passengerId (waitlistHeap f ! i)), h')"
      and ms: "heap_mset (waitlistHeap f) =
        {#(priority (waitlistHeap f ! i), passengerId (waitlistHeap f ! i))#} + heap_mset h'"
      by blast
    let ?q = "passengerId (waitlistHeap f ! i)"
    have "image_mset snd (heap_mset (waitlistHeap f)) = {#?q#} + image_mset snd (heap_mset h')"
      by (subst ms) simp
    then have "mset ((?c @ [?q]) @ map snd (heap_entries h')) = mset (?c @ waitlisted f)"
      by (simp add: waitlisted_def)
    then have "distinct ((?c @ [?q]) @ map snd (heap_entries h'))"
      using d mset_eq_imp_distinct_iff by blast
    moreover have "cancelBooking passenger f =
        (True, f\<lparr>confirmedPassengers := ?c @ [?q], waitlistHeap := h'\<rparr>)"
      using True False ex by (simp add: cancelBooking_def isEmpty_def)
    ultimately show ?thesis by (simp add: booked_def waitlisted_def)
  qed
qed

lemma booked_run:
  "distinct (booked f) \<Longrightarrow> no_waitlisted_rebooking ops f \<Longrightarrow>
   distinct (booked (flight_run ops f))"
  unfolding flight_run_def
proof (induction ops f rule: no_waitlisted_rebooking.induct)
  case (1 f)
  then show ?case by simp
next
  case (2 passenger prio ops f)
  then show ?case by (simp add: booked_add)
next
  case (3 passenger ops f)
  then show ?case by (simp add: booked_cancel)
qed

text \<open>
  Claim C8, as stated, fails: \<^verbatim>\<open>addPassenger\<close> looks for the id in the confirmed list
  only, so an id that is on the waitlist is inserted into the heap again. On a flight of
  capacity 1, after passenger 1 is confirmed, passenger 2 is added twice and passenger 1
  cancels, passenger 2 is in the confirmed list and on the waitlist at once.
\<close>

theorem double_booking_counterexample:
  "confirmedPassengers (flight_run
      [AddPassenger 1 10, AddPassenger 2 20, AddPassenger 2 30, CancelBooking 1]
      (Flight_ctor ''AI101'' ''BOM'' ''DEL'' 1)) = [2] \<and>
   waitlisted (flight_run
      [AddPassenger 1 10, AddPassenger 2 20, AddPassenger 2 30, CancelBooking 1]
      (Flight_ctor ''AI101'' ''BOM'' ''DEL'' 1)) = [2] \<and>
   \<not> distinct (booked (flight_run
      [AddPassenger 1 10, AddPassenger 2 20, AddPassenger 2 30, CancelBooking 1]
      (Flight_ctor ''AI101'' ''BOM'' ''DEL'' 1)))"
  by code_simp

text \<open>
  Claim C8, amended. In every state reached from the construction of a flight by a
  sequence of \<^verbatim>\<open>addPassenger\<close> and \<^verbatim>\<open>cancelBooking\<close> calls in which no \<^verbatim>\<open>addPassenger\<close>
  call is made with an id that is on the waitlist at the time of the call, each passenger
  id appears at most once in the confirmed list and the waitlist together.
\<close>

theorem no_double_booking:
  assumes "no_waitlisted_rebooking ops (Flight_ctor fid orig dest cap)"
  shows "distinct (booked (flight_run ops (Flight_ctor fid orig dest cap)))"
proof -
  have "distinct (booked (Flight_ctor fid orig dest cap))"
    by (simp add: booked_def waitlisted_def Flight_ctor_def)
  then show ?thesis using assms by (rule booked_run)
qed

theorem no_double_booking_witness:
  "no_waitlisted_rebooking
      [AddPassenger 1 10, AddPassenger 2 20, AddPassenger 1 30, AddPassenger 3 40, CancelBooking 1]
      (Flight_ctor ''AI101'' ''BOM'' ''DEL'' 1) \<and>
   distinct (booked (flight_run
      [AddPassenger 1 10, AddPassenger 2 20, AddPassenger 1 30, AddPassenger 3 40, CancelBooking 1]
      (Flight_ctor ''AI101'' ''BOM'' ''DEL'' 1)))"
proof -
  have h: "no_waitlisted_rebooking
      [AddPassenger 1 10, AddPassenger 2 20, AddPassenger 1 30, AddPassenger 3 40, CancelBooking 1]
      (Flight_ctor ''AI101'' ''BOM'' ''DEL'' 1)"
    by code_simp
  from no_double_booking [OF h] h show ?thesis by blast
qed

section \<open>Calls that change nothing\<close>

text \<open>
  Claim C9. When the id is already in the confirmed list, \<^verbatim>\<open>addPassenger\<close> with that id
  and any priority returns true and leaves the flight as it was (the confirmed list and
  the waitlist heap included); so does the same call repeated.
\<close>

theorem addPassenger_idempotent:
  assumes "passenger \<in> set (confirmedPassengers f)"
  shows "addPassenger passenger prio f = (True, f) \<and>
         addPassenger passenger prio' (snd (addPassenger passenger prio f)) = (True, f)"
  using assms by (simp add: addPassenger_def)

theorem addPassenger_idempotent_witness:
  "(1 :: int) \<in> set (confirmedPassengers (flight_run [AddPassenger 1 10, AddPassenger 2 20]
      (Flight_ctor ''AI101'' ''BOM'' ''DEL'' 1))) \<and>
   addPassenger 1 30 (flight_run [AddPassenger 1 10, AddPassenger 2 20]
      (Flight_ctor ''AI101'' ''BOM'' ''DEL'' 1)) =
     (True, flight_run [AddPassenger 1 10, AddPassenger 2 20]
      (Flight_ctor ''AI101'' ''BOM'' ''DEL'' 1)) \<and>
   addPassenger 1 40 (snd (addPassenger 1 30 (flight_run [AddPassenger 1 10, AddPassenger 2 20]
      (Flight_ctor ''AI101'' ''BOM'' ''DEL'' 1)))) =
     (True, flight_run [AddPassenger 1 10, AddPassenger 2 20]
      (Flight_ctor ''AI101'' ''BOM'' ''DEL'' 1))"
proof -
  have h: "(1 :: int) \<in> set (confirmedPassengers (flight_run [AddPassenger 1 10, AddPassenger 2 20]
      (Flight_ctor ''AI101'' ''BOM'' ''DEL'' 1)))"
    by code_simp
  from addPassenger_idempotent [OF h, of 30 40] h show ?thesis by blast
qed

text \<open>
  Claim C10. When the id is not in the confirmed list, \<^verbatim>\<open>cancelBooking\<close> returns false
  and leaves the whole flight as it was: the confirmed list, the waitlist heap and the
  capacity.
\<close>

theorem cancelBooking_not_found:
  assumes "passenger \<notin> set (confirmedPassengers f)"
  shows "cancelBooking passenger f = (False, f)"
  using assms by (simp add: cancelBooking_def)

theorem cancelBooking_not_found_witness:
  "(2 :: int) \<notin> set (confirmedPassengers (flight_run [AddPassenger 1 10, AddPassenger 2 20]
      (Flight_ctor ''AI101'' ''BOM'' ''DEL'' 1))) \<and>
   waitlisted (flight_run [AddPassenger 1 10, AddPassenger 2 20]
      (Flight_ctor ''AI101'' ''BOM'' ''DEL'' 1)) = [2] \<and>
   cancelBooking 2 (flight_run [AddPassenger 1 10, AddPassenger 2 20]
      (Flight_ctor ''AI101'' ''BOM'' ''DEL'' 1)) =
     (False, flight_run [AddPassenger 1 10, AddPassenger 2 20]
      (Flight_ctor ''AI101'' ''BOM'' ''DEL'' 1))"
proof -
  have h: "(2 :: int) \<notin> set (confirmedPassengers (flight_run [AddPassenger 1 10, AddPassenger 2 20]
      (Flight_ctor ''AI101'' ''BOM'' ''DEL'' 1)))"
    by code_simp
  have w: "waitlisted (flight_run [AddPassenger 1 10, AddPassenger 2 20]
      (Flight_ctor ''AI101'' ''BOM'' ''DEL'' 1)) = [2]"
    by code_simp
  from cancelBooking_not_found [OF h] h w show ?thesis by blast
qed

end
